theory Spec2Isabelle
  imports Main "HOL-Library.Word" "HOL-Library.Multiset"
begin

unbundle bit_operations_syntax

section \<open>Data model of hard/01_distributed_worker.go\<close>

text \<open>
  The consistent-hash ring of \<^verbatim>\<open>hard/01_distributed_worker.go\<close>, its lookup and
  the bounded task queue of the worker manager, embedded as pure functions over
  explicit state records.  Go maps are partial functions, where a missing key
  reads as the zero value of the value type; slices are lists; \<^verbatim>\<open>uint32\<close> is
  \<open>32 word\<close>; a returned \<^verbatim>\<open>error\<close> or a run-time panic is the left summand of
  the result.
\<close>

datatype error = NoWorkersAvailable | TaskQueueFull | IndexOutOfRange | NilDereference

text \<open>\<^verbatim>\<open>Task\<close>: the payload is opaque to the router, the creation time is a time stamp.\<close>

record Task =
  ID :: string
  Payload :: string
  Created :: int

text \<open>
  \<^verbatim>\<open>DistributedWorker\<close>, the one implementation of the \<^verbatim>\<open>Worker\<close> interface.
  A \<^verbatim>\<open>nil\<close> interface value is \<open>None\<close> of \<open>Worker option\<close>.
\<close>

record Worker =
  wid :: string
  processedCount :: int
  isHealthy :: bool
  processingTime :: int

definition NewDistributedWorker :: "string \<Rightarrow> int \<Rightarrow> Worker" where
  "NewDistributedWorker i pt =
     \<lparr>wid = i, processedCount = 0, isHealthy = True, processingTime = pt\<rparr>"

definition GetID :: "Worker \<Rightarrow> string" where
  "GetID w = wid w"

definition IsHealthy :: "Worker \<Rightarrow> bool" where
  "IsHealthy w = isHealthy w"

definition SetHealthy :: "Worker \<Rightarrow> bool \<Rightarrow> Worker" where
  "SetHealthy w h = w\<lparr>isHealthy := h\<rparr>"

record ConsistentHash =
  replicas :: int
  ring :: "32 word \<rightharpoonup> string"
  sortedKeys :: "32 word list"
  workers :: "string \<rightharpoonup> Worker"

definition NewConsistentHash :: "int \<Rightarrow> ConsistentHash" where
  "NewConsistentHash r =
     \<lparr>replicas = r, ring = Map.empty, sortedKeys = [], workers = Map.empty\<rparr>"

section \<open>The hash function\<close>

text \<open>
  \<^verbatim>\<open>crc32.ChecksumIEEE\<close>: the reflected CRC-32 with polynomial \<^verbatim>\<open>0xEDB88320\<close>,
  initial value and final complement \<^verbatim>\<open>0xFFFFFFFF\<close>, computed bit by bit.
\<close>

definition crc32_bit :: "32 word \<Rightarrow> 32 word" where
  "crc32_bit c = (if bit c 0 then drop_bit 1 c XOR 0xEDB88320 else drop_bit 1 c)"

definition crc32_byte :: "32 word \<Rightarrow> char \<Rightarrow> 32 word" where
  "crc32_byte c b = (crc32_bit ^^ 8) (c XOR word_of_nat (of_char b))"

definition ChecksumIEEE :: "string \<Rightarrow> 32 word" where
  "ChecksumIEEE s = foldl crc32_byte 0xFFFFFFFF s XOR 0xFFFFFFFF"

definition hashFunction :: "string \<Rightarrow> 32 word" where
  "hashFunction data = ChecksumIEEE data"

text \<open>\<^verbatim>\<open>%d\<close> of a non-negative \<^verbatim>\<open>int\<close>: its decimal digits.\<close>

fun decimal :: "nat \<Rightarrow> string" where
  "decimal n =
     (if n < 10 then [char_of (48 + n)]
      else decimal (n div 10) @ [char_of (48 + n mod 10)])"

declare decimal.simps [simp del]

text \<open>\<^verbatim>\<open>fmt.Sprintf("%s#%d", workerID, i)\<close>\<close>

definition virtualNode :: "string \<Rightarrow> nat \<Rightarrow> string" where
  "virtualNode workerID i = workerID @ ''#'' @ decimal i"

text \<open>
  The hashes the loop \<^verbatim>\<open>for i := 0; i < ch.replicas; i++\<close> visits, in order.  A
  replica count of zero or below runs the body no time.
\<close>

definition vnodeHashes :: "int \<Rightarrow> string \<Rightarrow> 32 word list" where
  "vnodeHashes r workerID = map (\<lambda>i. hashFunction (virtualNode workerID i)) [0..<nat r]"

section \<open>The hash ring\<close>

text \<open>One pass of the loop body of \<^verbatim>\<open>AddWorker\<close>.\<close>

definition addVirtualNode :: "string \<Rightarrow> ConsistentHash \<Rightarrow> 32 word \<Rightarrow> ConsistentHash" where
  "addVirtualNode workerID ch h =
     ch\<lparr>ring := (ring ch)(h \<mapsto> workerID), sortedKeys := sortedKeys ch @ [h]\<rparr>"

text \<open>
  \<^verbatim>\<open>AddWorker\<close>: register the handle, add the virtual nodes, sort the key slice.
  \<^verbatim>\<open>sort.Slice\<close> with \<^verbatim>\<open><\<close> on \<^verbatim>\<open>uint32\<close> leaves the ascending arrangement of the
  same values.
\<close>

definition AddWorker :: "ConsistentHash \<Rightarrow> Worker \<Rightarrow> ConsistentHash" where
  "AddWorker ch worker =
     (let workerID = GetID worker;
          ch1 = ch\<lparr>workers := (workers ch)(workerID \<mapsto> worker)\<rparr>;
          ch2 = foldl (addVirtualNode workerID) ch1 (vnodeHashes (replicas ch1) workerID)
      in ch2\<lparr>sortedKeys := sort (sortedKeys ch2)\<rparr>)"

text \<open>
  One pass of the outer loop of \<^verbatim>\<open>RemoveWorker\<close>: delete the map entry, and cut the
  first occurrence of the hash out of the key slice (the inner loop breaks at it).
\<close>

definition removeVirtualNode :: "ConsistentHash \<Rightarrow> 32 word \<Rightarrow> ConsistentHash" where
  "removeVirtualNode ch h =
     ch\<lparr>ring := (ring ch)(h := None), sortedKeys := remove1 h (sortedKeys ch)\<rparr>"

definition RemoveWorker :: "ConsistentHash \<Rightarrow> string \<Rightarrow> ConsistentHash" where
  "RemoveWorker ch workerID =
     (let ch1 = foldl removeVirtualNode ch (vnodeHashes (replicas ch) workerID)
      in ch1\<lparr>workers := (workers ch1)(workerID := None)\<rparr>)"

text \<open>
  \<^verbatim>\<open>sort.Search(n, f)\<close> of the Go library: binary search for the least index in
  \<open>[0, n)\<close> at which \<open>f\<close> holds, \<open>n\<close> if it finds none.
\<close>

function bsearch :: "(nat \<Rightarrow> bool) \<Rightarrow> nat \<Rightarrow> nat \<Rightarrow> nat" where
  "bsearch f i j =
     (if i < j then
        (let h = (i + j) div 2
         in if \<not> f h then bsearch f (h + 1) j else bsearch f i h)
      else i)"
  by pat_completeness auto
termination
  by (relation "measure (\<lambda>(f, i, j). j - i)") auto

declare bsearch.simps [simp del]

definition Search :: "nat \<Rightarrow> (nat \<Rightarrow> bool) \<Rightarrow> nat" where
  "Search n f = bsearch f 0 n"

text \<open>Reading a Go map of strings: a missing key gives the empty string.\<close>

definition ringAt :: "ConsistentHash \<Rightarrow> 32 word \<Rightarrow> string" where
  "ringAt ch k = (case ring ch k of None \<Rightarrow> [] | Some workerID \<Rightarrow> workerID)"

text \<open>
  \<^verbatim>\<open>GetWorker\<close>.  \<open>Inl NoWorkersAvailable\<close> is the returned error; the index
  expression \<^verbatim>\<open>ch.sortedKeys[idx]\<close> panics on an empty slice; \<open>Inr None\<close> is a nil
  worker returned with a nil error.
\<close>

definition GetWorker :: "ConsistentHash \<Rightarrow> string \<Rightarrow> error + Worker option" where
  "GetWorker ch taskID =
     (if ring ch = Map.empty then Inl NoWorkersAvailable
      else
        (let hash = hashFunction taskID;
             idx = Search (length (sortedKeys ch)) (\<lambda>i. hash \<le> sortedKeys ch ! i);
             idx = (if idx = length (sortedKeys ch) then 0 else idx)
         in if idx < length (sortedKeys ch)
            then Inr (workers ch (ringAt ch (sortedKeys ch ! idx)))
            else Inl IndexOutOfRange))"

text \<open>The ring states that calls of \<^verbatim>\<open>AddWorker\<close> and \<^verbatim>\<open>RemoveWorker\<close> produce.\<close>

inductive reachable :: "ConsistentHash \<Rightarrow> bool" where
  new: "reachable (NewConsistentHash r)"
| add: "reachable ch \<Longrightarrow> reachable (AddWorker ch worker)"
| remove: "reachable ch \<Longrightarrow> reachable (RemoveWorker ch workerID)"

text \<open>
  The ring states in which no worker is added while it is registered, no two
  virtual nodes have the same hash, and only registered workers are removed.
\<close>

inductive collisionFree :: "ConsistentHash \<Rightarrow> bool" where
  cf_new: "collisionFree (NewConsistentHash r)"
| cf_add: "collisionFree ch \<Longrightarrow> GetID worker \<notin> dom (workers ch) \<Longrightarrow>
     distinct (vnodeHashes (replicas ch) (GetID worker)) \<Longrightarrow>
     set (vnodeHashes (replicas ch) (GetID worker)) \<inter> set (sortedKeys ch) = {} \<Longrightarrow>
     collisionFree (AddWorker ch worker)"
| cf_remove: "collisionFree ch \<Longrightarrow> workerID \<in> dom (workers ch) \<Longrightarrow>
     collisionFree (RemoveWorker ch workerID)"

text \<open>
  The virtual node at or after a hash, clockwise: the first key of the ascending list
  that is not below the hash, and the first key of the list when there is none.
\<close>

definition successor :: "32 word list \<Rightarrow> 32 word \<Rightarrow> 32 word" where
  "successor keys h = (case filter (\<lambda>k. h \<le> k) keys of [] \<Rightarrow> hd keys | k # _ \<Rightarrow> k)"

section \<open>The worker manager\<close>

text \<open>A buffered channel \<^verbatim>\<open>make(chan Task, n)\<close>: its queue and its capacity.\<close>

record chan =
  cbuf :: "Task list"
  ccap :: nat

definition makeChan :: "nat \<Rightarrow> chan" where
  "makeChan n = \<lparr>cbuf = [], ccap = n\<rparr>"

text \<open>A send and a receive that do not wait: \<open>None\<close> when the operation would block.\<close>

definition trySend :: "chan \<Rightarrow> Task \<Rightarrow> chan option" where
  "trySend c t = (if length (cbuf c) < ccap c then Some (c\<lparr>cbuf := cbuf c @ [t]\<rparr>) else None)"

definition tryRecv :: "chan \<Rightarrow> (Task \<times> chan) option" where
  "tryRecv c = (case cbuf c of [] \<Rightarrow> None | t # ts \<Rightarrow> Some (t, c\<lparr>cbuf := ts\<rparr>))"

text \<open>What the dispatch loop prints when it drops a task.\<close>

datatype report = LookupFailed error Task | WorkerUnhealthy string Task

text \<open>
  \<^verbatim>\<open>WorkerManager\<close>, with the effects of the dispatch loop made state: the
  goroutines started on \<^verbatim>\<open>ProcessTask\<close>, the drop reports printed, and whether
  \<^verbatim>\<open>stopChan\<close> is closed.
\<close>

record WorkerManager =
  hash :: ConsistentHash
  taskChan :: chan
  stopped :: bool
  started :: "(Worker \<times> Task) list"
  reports :: "report list"

definition NewWorkerManager :: "int \<Rightarrow> WorkerManager" where
  "NewWorkerManager r =
     \<lparr>hash = NewConsistentHash r, taskChan = makeChan 100, stopped = False,
      started = [], reports = []\<rparr>"

text \<open>\<^verbatim>\<open>SubmitTask\<close>: the \<^verbatim>\<open>select\<close> with a \<^verbatim>\<open>default\<close> branch.\<close>

definition SubmitTask :: "WorkerManager \<Rightarrow> Task \<Rightarrow> error option \<times> WorkerManager" where
  "SubmitTask wm task =
     (case trySend (taskChan wm) task of
        Some c \<Rightarrow> (None, wm\<lparr>taskChan := c\<rparr>)
      | None \<Rightarrow> (Some TaskQueueFull, wm))"

text \<open>Submitting a list of tasks one after the other, with the result of each call.\<close>

fun submitAll :: "WorkerManager \<Rightarrow> Task list \<Rightarrow> error option list \<times> WorkerManager" where
  "submitAll wm [] = ([], wm)"
| "submitAll wm (t # ts) =
     (case SubmitTask wm t of (r, wm1) \<Rightarrow>
        (case submitAll wm1 ts of (rs, wm2) \<Rightarrow> (r # rs, wm2)))"

text \<open>
  One pass of the loop of \<^verbatim>\<open>taskProcessor\<close>: how it ends.  \<open>Continue\<close> is the next
  iteration, \<open>Return\<close> the exit on the stop signal, \<open>Crash\<close> a run-time panic.
\<close>

datatype outcome = Continue WorkerManager | Return WorkerManager | Crash error

text \<open>The branch \<^verbatim>\<open>case task := <-wm.taskChan\<close>, the task already taken off the queue.\<close>

definition handleTask :: "WorkerManager \<Rightarrow> Task \<Rightarrow> outcome" where
  "handleTask wm task =
     (case GetWorker (hash wm) (ID task) of
        Inl NoWorkersAvailable \<Rightarrow>
          Continue (wm\<lparr>reports := reports wm @ [LookupFailed NoWorkersAvailable task]\<rparr>)
      | Inl e \<Rightarrow> Crash e
      | Inr None \<Rightarrow> Crash NilDereference
      | Inr (Some worker) \<Rightarrow>
          if \<not> IsHealthy worker
          then Continue (wm\<lparr>reports := reports wm @ [WorkerUnhealthy (GetID worker) task]\<rparr>)
          else Continue (wm\<lparr>started := started wm @ [(worker, task)]\<rparr>))"

text \<open>The \<^verbatim>\<open>select\<close> of the loop: either ready branch may be taken.\<close>

inductive taskProcessorStep :: "WorkerManager \<Rightarrow> outcome \<Rightarrow> bool" where
  recv: "tryRecv (taskChan wm) = Some (task, c) \<Longrightarrow>
     taskProcessorStep wm (handleTask (wm\<lparr>taskChan := c\<rparr>) task)"
| stop: "stopped wm \<Longrightarrow> taskProcessorStep wm (Return wm)"

section \<open>Sample states\<close>

definition fullManager :: WorkerManager where
  "fullManager = (NewWorkerManager 3)\<lparr>taskChan :=
     \<lparr>cbuf = replicate 100 \<lparr>ID = ''t'', Payload = [], Created = 0\<rparr>, ccap = 100\<rparr>\<rparr>"

definition idleRing :: WorkerManager where
  "idleRing = (NewWorkerManager 3)\<lparr>taskChan :=
     \<lparr>cbuf = [\<lparr>ID = ''t'', Payload = [], Created = 0\<rparr>], ccap = 100\<rparr>\<rparr>"

definition workerA :: Worker where
  "workerA = NewDistributedWorker ''a'' 100"

definition workerB :: Worker where
  "workerB = NewDistributedWorker ''b'' 200"

text \<open>Two workers with one virtual node each.\<close>

definition ringAB :: ConsistentHash where
  "ringAB = AddWorker (AddWorker (NewConsistentHash 1) workerA) workerB"

text \<open>A worker added twice and removed once: one of its two keys stays in the list.\<close>

definition staleRing :: ConsistentHash where
  "staleRing = RemoveWorker (AddWorker (AddWorker (NewConsistentHash 1) workerA) workerA) ''a''"

definition staleRingB :: ConsistentHash where
  "staleRingB = AddWorker staleRing workerB"

text \<open>The same with the other worker: the stale key is the smallest key of the list.\<close>

definition staleRingA :: ConsistentHash where
  "staleRingA =
     AddWorker (RemoveWorker (AddWorker (AddWorker (NewConsistentHash 1) workerB) workerB) ''b'')
       workerA"

section \<open>What the two loops over the virtual nodes compute\<close>

lemma foldl_add_ring:
  "ring (foldl (addVirtualNode i) ch hs) k = (if k \<in> set hs then Some i else ring ch k)"
  by (induction hs arbitrary: ch) (auto simp: addVirtualNode_def)

lemma foldl_add_keys:
  "sortedKeys (foldl (addVirtualNode i) ch hs) = sortedKeys ch @ hs"
  by (induction hs arbitrary: ch) (auto simp: addVirtualNode_def)

lemma foldl_add_workers:
  "workers (foldl (addVirtualNode i) ch hs) = workers ch"
  by (induction hs arbitrary: ch) (auto simp: addVirtualNode_def)

lemma foldl_add_replicas:
  "replicas (foldl (addVirtualNode i) ch hs) = replicas ch"
  by (induction hs arbitrary: ch) (auto simp: addVirtualNode_def)

lemma AddWorker_ring:
  "ring (AddWorker ch w) k =
     (if k \<in> set (vnodeHashes (replicas ch) (wid w)) then Some (wid w) else ring ch k)"
  by (simp add: AddWorker_def Let_def GetID_def foldl_add_ring)

lemma AddWorker_keys:
  "sortedKeys (AddWorker ch w) = sort (sortedKeys ch @ vnodeHashes (replicas ch) (wid w))"
  by (simp add: AddWorker_def Let_def GetID_def foldl_add_keys)

lemma AddWorker_workers:
  "workers (AddWorker ch w) = (workers ch)(wid w \<mapsto> w)"
  by (simp add: AddWorker_def Let_def GetID_def foldl_add_workers)

lemma AddWorker_replicas:
  "replicas (AddWorker ch w) = replicas ch"
  by (simp add: AddWorker_def Let_def foldl_add_replicas)

lemma foldl_remove_ring:
  "ring (foldl removeVirtualNode ch hs) k = (if k \<in> set hs then None else ring ch k)"
  by (induction hs arbitrary: ch) (auto simp: removeVirtualNode_def)

lemma foldl_remove_workers:
  "workers (foldl removeVirtualNode ch hs) = workers ch"
  by (induction hs arbitrary: ch) (auto simp: removeVirtualNode_def)

lemma foldl_remove_replicas:
  "replicas (foldl removeVirtualNode ch hs) = replicas ch"
  by (induction hs arbitrary: ch) (auto simp: removeVirtualNode_def)

lemma foldl_remove_sorted:
  "sorted (sortedKeys ch) \<Longrightarrow> sorted (sortedKeys (foldl removeVirtualNode ch hs))"
  by (induction hs arbitrary: ch) (auto simp: removeVirtualNode_def sorted_remove1)

lemma foldl_remove_mset:
  "mset (sortedKeys (foldl removeVirtualNode ch hs)) = mset (sortedKeys ch) - mset hs"
  by (induction hs arbitrary: ch) (auto simp: removeVirtualNode_def)

lemma foldl_remove_other:
  "k \<notin> set hs \<Longrightarrow>
   k \<in> set (sortedKeys (foldl removeVirtualNode ch hs)) \<longleftrightarrow> k \<in> set (sortedKeys ch)"
  by (induction hs arbitrary: ch) (auto simp: removeVirtualNode_def)

lemma foldl_remove_subset:
  "set (sortedKeys (foldl removeVirtualNode ch hs)) \<subseteq> set (sortedKeys ch)"
proof (induction hs arbitrary: ch)
  case Nil
  show ?case by simp
next
  case (Cons h hs)
  have "set (sortedKeys (foldl removeVirtualNode (removeVirtualNode ch h) hs))
      \<subseteq> set (sortedKeys (removeVirtualNode ch h))"
    by (rule Cons.IH)
  also have "\<dots> \<subseteq> set (sortedKeys ch)"
    by (simp add: removeVirtualNode_def set_remove1_subset)
  finally show ?case by simp
qed

lemma foldl_remove_distinct:
  "distinct (sortedKeys ch) \<Longrightarrow>
   sortedKeys (foldl removeVirtualNode ch hs) = filter (\<lambda>k. k \<notin> set hs) (sortedKeys ch)"
proof (induction hs arbitrary: ch)
  case Nil
  show ?case by simp
next
  case (Cons h hs)
  let ?ch = "removeVirtualNode ch h"
  from Cons.prems have keys: "sortedKeys ?ch = filter (\<lambda>k. k \<noteq> h) (sortedKeys ch)"
    by (simp add: removeVirtualNode_def distinct_remove1_removeAll removeAll_filter_not_eq
        neq_commute)
  with Cons.prems have "distinct (sortedKeys ?ch)"
    by simp
  then have "sortedKeys (foldl removeVirtualNode ?ch hs) =
      filter (\<lambda>k. k \<notin> set hs) (sortedKeys ?ch)"
    by (rule Cons.IH)
  with keys show ?case
    by (simp add: conj_commute)
qed

lemma RemoveWorker_ring:
  "ring (RemoveWorker ch W) k =
     (if k \<in> set (vnodeHashes (replicas ch) W) then None else ring ch k)"
  by (simp add: RemoveWorker_def Let_def foldl_remove_ring)

lemma RemoveWorker_workers:
  "workers (RemoveWorker ch W) = (workers ch)(W := None)"
  by (simp add: RemoveWorker_def Let_def foldl_remove_workers)

lemma RemoveWorker_replicas:
  "replicas (RemoveWorker ch W) = replicas ch"
  by (simp add: RemoveWorker_def Let_def foldl_remove_replicas)

lemma RemoveWorker_sorted:
  "sorted (sortedKeys ch) \<Longrightarrow> sorted (sortedKeys (RemoveWorker ch W))"
  by (simp add: RemoveWorker_def Let_def foldl_remove_sorted)

lemma RemoveWorker_mset:
  "mset (sortedKeys (RemoveWorker ch W)) =
     mset (sortedKeys ch) - mset (vnodeHashes (replicas ch) W)"
  by (simp add: RemoveWorker_def Let_def foldl_remove_mset)

lemma RemoveWorker_other:
  "k \<notin> set (vnodeHashes (replicas ch) W) \<Longrightarrow>
   k \<in> set (sortedKeys (RemoveWorker ch W)) \<longleftrightarrow> k \<in> set (sortedKeys ch)"
  by (simp add: RemoveWorker_def Let_def foldl_remove_other)

lemma RemoveWorker_distinct:
  "distinct (sortedKeys ch) \<Longrightarrow>
   sortedKeys (RemoveWorker ch W) =
     filter (\<lambda>k. k \<notin> set (vnodeHashes (replicas ch) W)) (sortedKeys ch)"
  by (simp add: RemoveWorker_def Let_def foldl_remove_distinct)

section \<open>Invariants of the reachable ring states\<close>

lemma reachable_sorted: "reachable ch \<Longrightarrow> sorted (sortedKeys ch)"
  by (induction rule: reachable.induct)
    (simp_all add: NewConsistentHash_def AddWorker_keys RemoveWorker_sorted)

lemma reachable_ring_keys: "reachable ch \<Longrightarrow> ring ch k = Some X \<Longrightarrow> k \<in> set (sortedKeys ch)"
proof (induction arbitrary: k X rule: reachable.induct)
  case (new r)
  then show ?case by (simp add: NewConsistentHash_def)
next
  case (add ch worker)
  then show ?case
    by (auto simp: AddWorker_ring AddWorker_keys split: if_splits)
next
  case (remove ch workerID)
  from remove.prems have out: "k \<notin> set (vnodeHashes (replicas ch) workerID)"
    and old: "ring ch k = Some X"
    by (auto simp: RemoveWorker_ring split: if_splits)
  from remove.IH [OF old] out show ?case
    by (simp add: RemoveWorker_other)
qed

lemma reachable_owner:
  "reachable ch \<Longrightarrow> ring ch k = Some X \<Longrightarrow>
   X \<in> dom (workers ch) \<and> k \<in> set (vnodeHashes (replicas ch) X)"
proof (induction arbitrary: k X rule: reachable.induct)
  case (new r)
  then show ?case by (simp add: NewConsistentHash_def)
next
  case (add ch worker)
  show ?case
  proof (cases "k \<in> set (vnodeHashes (replicas ch) (wid worker))")
    case True
    with add.prems show ?thesis
      by (auto simp: AddWorker_ring AddWorker_workers AddWorker_replicas)
  next
    case False
    with add.prems have "ring ch k = Some X"
      by (simp add: AddWorker_ring)
    from add.IH [OF this] show ?thesis
      by (auto simp: AddWorker_workers AddWorker_replicas)
  qed
next
  case (remove ch workerID)
  from remove.prems have out: "k \<notin> set (vnodeHashes (replicas ch) workerID)"
    and old: "ring ch k = Some X"
    by (auto simp: RemoveWorker_ring split: if_splits)
  from remove.IH [OF old] have reg: "X \<in> dom (workers ch)"
    and mine: "k \<in> set (vnodeHashes (replicas ch) X)"
    by simp_all
  from out mine have "X \<noteq> workerID"
    by auto
  with reg mine show ?case
    by (auto simp: RemoveWorker_workers RemoveWorker_replicas)
qed

lemma reachable_wid: "reachable ch \<Longrightarrow> workers ch X = Some w \<Longrightarrow> wid w = X"
  by (induction arbitrary: X w rule: reachable.induct)
    (auto simp: NewConsistentHash_def AddWorker_workers RemoveWorker_workers split: if_splits)

section \<open>The binary search and the selected key\<close>

section \<open>The binary search and the selected key\<close>

lemma bsearch_spec:
  "i \<le> j \<Longrightarrow>
   i \<le> bsearch f i j \<and> bsearch f i j \<le> j \<and>
   (bsearch f i j < j \<longrightarrow> f (bsearch f i j)) \<and>
   (i < bsearch f i j \<longrightarrow> \<not> f (bsearch f i j - 1))"
proof (induction f i j rule: bsearch.induct)
  case (1 f i j)
  show ?case
  proof (cases "i < j")
    case False
    then have "bsearch f i j = i"
      by (subst bsearch.simps) simp
    with "1.prems" False show ?thesis by simp
  next
    case True
    let ?h = "(i + j) div 2"
    from True have h: "i \<le> ?h" "?h < j" by auto
    show ?thesis
    proof (cases "f ?h")
      case False
      from h have le: "?h + 1 \<le> j" by simp
      have eq: "bsearch f i j = bsearch f (?h + 1) j"
        using True False by (simp add: bsearch.simps [of f i j] Let_def)
      from "1.IH"(1) [OF True refl False le]
      have ih: "?h + 1 \<le> bsearch f (?h + 1) j" "bsearch f (?h + 1) j \<le> j"
        "bsearch f (?h + 1) j < j \<longrightarrow> f (bsearch f (?h + 1) j)"
        "?h + 1 < bsearch f (?h + 1) j \<longrightarrow> \<not> f (bsearch f (?h + 1) j - 1)"
        by simp_all
      have "\<not> f (bsearch f (?h + 1) j - 1)"
      proof (cases "?h + 1 < bsearch f (?h + 1) j")
        case True
        with ih(4) show ?thesis by simp
      next
        case False
        with ih(1) have "bsearch f (?h + 1) j = ?h + 1" by simp
        with \<open>\<not> f ?h\<close> show ?thesis by simp
      qed
      with ih h show ?thesis
        unfolding eq by auto
    next
      case yes: True
      have eq: "bsearch f i j = bsearch f i ?h"
        using True yes by (simp add: bsearch.simps [of f i j] Let_def)
      from "1.IH"(2) [OF True refl _ h(1)] yes
      have ih: "i \<le> bsearch f i ?h" "bsearch f i ?h \<le> ?h"
        "bsearch f i ?h < ?h \<longrightarrow> f (bsearch f i ?h)"
        "i < bsearch f i ?h \<longrightarrow> \<not> f (bsearch f i ?h - 1)"
        by simp_all
      have "f (bsearch f i ?h)"
      proof (cases "bsearch f i ?h < ?h")
        case True
        with ih(3) show ?thesis by simp
      next
        case False
        with ih(2) have "bsearch f i ?h = ?h" by simp
        with yes show ?thesis by simp
      qed
      with ih h show ?thesis
        unfolding eq by auto
    qed
  qed
qed

lemma Search_le: "Search n f \<le> n"
  using bsearch_spec [of 0 n f] by (simp add: Search_def)

lemma Search_split:
  assumes "sorted keys"
  shows "(\<forall>k \<in> set (take (Search (length keys) (\<lambda>i. h \<le> keys ! i)) keys). k < h) \<and>
    (\<forall>k \<in> set (drop (Search (length keys) (\<lambda>i. h \<le> keys ! i)) keys). h \<le> k)"
proof -
  let ?f = "\<lambda>i. h \<le> keys ! i"
  let ?r = "Search (length keys) ?f"
  have le: "?r \<le> length keys"
    by (rule Search_le)
  have hit: "?r < length keys \<longrightarrow> h \<le> keys ! ?r"
    and before: "0 < ?r \<longrightarrow> keys ! (?r - 1) < h"
    using bsearch_spec [of 0 "length keys" ?f] by (auto simp: Search_def)
  have low: "\<forall>k \<in> set (take ?r keys). k < h"
  proof
    fix k assume "k \<in> set (take ?r keys)"
    then obtain a where a: "a < length (take ?r keys)" "k = take ?r keys ! a"
      by (metis in_set_conv_nth)
    with le have a': "a < ?r" "k = keys ! a"
      by simp_all
    with assms le have "keys ! a \<le> keys ! (?r - 1)"
      by (intro sorted_nth_mono) auto
    with a' before show "k < h" by auto
  qed
  have high: "\<forall>k \<in> set (drop ?r keys). h \<le> k"
  proof
    fix k assume "k \<in> set (drop ?r keys)"
    then obtain a where a: "a < length (drop ?r keys)" "k = drop ?r keys ! a"
      by (metis in_set_conv_nth)
    with le have a': "?r + a < length keys" "k = keys ! (?r + a)"
      by simp_all
    with assms have "keys ! ?r \<le> keys ! (?r + a)"
      by (intro sorted_nth_mono) auto
    with a' hit show "h \<le> k" by auto
  qed
  from low high show ?thesis by blast
qed

lemma filter_below:
  fixes h :: "'a::linorder"
  shows "\<forall>k \<in> set xs. k < h \<Longrightarrow> filter (\<lambda>k. h \<le> k) xs = []"
  by (induction xs) auto

lemma filter_above:
  fixes h :: "'a::linorder"
  shows "\<forall>k \<in> set xs. h \<le> k \<Longrightarrow> filter (\<lambda>k. h \<le> k) xs = xs"
  by (induction xs) auto

lemma selected_key:
  assumes "sorted keys" and "keys \<noteq> []"
  shows "keys ! (if Search (length keys) (\<lambda>i. h \<le> keys ! i) = length keys then 0
                 else Search (length keys) (\<lambda>i. h \<le> keys ! i)) = successor keys h"
proof -
  let ?r = "Search (length keys) (\<lambda>i. h \<le> keys ! i)"
  have le: "?r \<le> length keys"
    by (rule Search_le)
  have low: "\<forall>k \<in> set (take ?r keys). k < h"
    using Search_split [OF assms(1), of h] by (rule conjunct1)
  have high: "\<forall>k \<in> set (drop ?r keys). h \<le> k"
    using Search_split [OF assms(1), of h] by (rule conjunct2)
  have "filter (\<lambda>k. h \<le> k) keys =
      filter (\<lambda>k. h \<le> k) (take ?r keys) @ filter (\<lambda>k. h \<le> k) (drop ?r keys)"
    by (simp flip: filter_append)
  also from low have "filter (\<lambda>k. h \<le> k) (take ?r keys) = []"
    by (rule filter_below)
  also from high have "filter (\<lambda>k. h \<le> k) (drop ?r keys) = drop ?r keys"
    by (rule filter_above)
  finally have post: "filter (\<lambda>k. h \<le> k) keys = drop ?r keys"
    by simp
  show ?thesis
  proof (cases "?r = length keys")
    case True
    with post assms(2) show ?thesis
      by (simp add: successor_def hd_conv_nth)
  next
    case False
    with le have "?r < length keys" by simp
    then have "drop ?r keys = keys ! ?r # drop (Suc ?r) keys"
      by (simp add: Cons_nth_drop_Suc)
    with post False show ?thesis
      by (simp add: successor_def)
  qed
qed

lemma successor_mem: "keys \<noteq> [] \<Longrightarrow> successor keys h \<in> set keys"
proof (cases "filter (\<lambda>k. h \<le> k) keys")
  case Nil
  assume "keys \<noteq> []"
  with Nil show ?thesis by (simp add: successor_def)
next
  case (Cons k ks)
  have "k \<in> set (k # ks)" by simp
  then have "k \<in> set (filter (\<lambda>k. h \<le> k) keys)" unfolding Cons .
  then have "k \<in> set keys" by simp
  with Cons show ?thesis by (simp add: successor_def)
qed

lemma successor_filter:
  assumes "keys \<noteq> []" and "P (successor keys h)"
  shows "successor (filter P keys) h = successor keys h"
proof (cases "filter (\<lambda>k. h \<le> k) keys")
  case Nil
  then have "filter (\<lambda>k. h \<le> k) (filter P keys) = []"
    by (auto simp: filter_empty_conv)
  moreover from Nil assms obtain k ks where "keys = k # ks" "P k"
    by (cases keys) (auto simp: successor_def)
  ultimately show ?thesis using Nil
    by (simp add: successor_def)
next
  case (Cons k ks)
  with assms have "P k" by (simp add: successor_def)
  have "filter (\<lambda>k. h \<le> k) (filter P keys) = filter P (filter (\<lambda>k. h \<le> k) keys)"
    by (induction keys) auto
  with Cons \<open>P k\<close> show ?thesis
    by (simp add: successor_def)
qed

lemma GetWorker_successor:
  assumes "sorted (sortedKeys ch)" and "sortedKeys ch \<noteq> []" and "ring ch \<noteq> Map.empty"
  shows "GetWorker ch t =
    Inr (workers ch (ringAt ch (successor (sortedKeys ch) (hashFunction t))))"
proof -
  let ?keys = "sortedKeys ch"
  let ?r = "Search (length ?keys) (\<lambda>i. hashFunction t \<le> ?keys ! i)"
  let ?idx = "if ?r = length ?keys then 0 else ?r"
  have "?r \<le> length ?keys"
    by (rule Search_le)
  with assms(2) have inb: "?idx < length ?keys"
    by (cases "?r = length ?keys") simp_all
  have sel: "?keys ! ?idx = successor ?keys (hashFunction t)"
    using assms(1,2) by (rule selected_key)
  have "GetWorker ch t =
      (if ?idx < length ?keys then Inr (workers ch (ringAt ch (?keys ! ?idx)))
       else Inl IndexOutOfRange)"
    unfolding GetWorker_def Let_def using assms(3) by (simp only: if_False)
  also have "\<dots> = Inr (workers ch (ringAt ch (?keys ! ?idx)))"
    using inb by (simp only: if_True)
  also have "\<dots> = Inr (workers ch (ringAt ch (successor ?keys (hashFunction t))))"
    by (simp only: sel)
  finally show ?thesis .
qed

section \<open>Facts about the sample states\<close>

lemma hash_a0: "hashFunction ''a#0'' = 774127560"
  by code_simp

lemma hash_b0: "hashFunction ''b#0'' = 744653201"
  by code_simp

lemma hash_x: "hashFunction ''x'' = 2363233923"
  by code_simp

lemma hash_nil: "hashFunction [] = 0"
  by (simp add: hashFunction_def ChecksumIEEE_def)

lemma decimal_0: "decimal 0 = ''0''"
  by code_simp

lemma vnodeHashes_one: "vnodeHashes 1 s = [hashFunction (s @ ''#0'')]"
  by (simp add: vnodeHashes_def virtualNode_def decimal_0)

lemma vnodes_a: "vnodeHashes 1 ''a'' = [774127560]"
  by (simp add: vnodeHashes_one hash_a0)

lemma vnodes_b: "vnodeHashes 1 ''b'' = [744653201]"
  by (simp add: vnodeHashes_one hash_b0)

lemma wid_samples: "wid workerA = ''a''" "wid workerB = ''b''"
  by (simp_all add: workerA_def workerB_def NewDistributedWorker_def)

lemma replicas_new: "replicas (NewConsistentHash r) = r"
  by (simp add: NewConsistentHash_def)

lemma ringAB_keys: "sortedKeys ringAB = [744653201, 774127560]"
  by (simp add: ringAB_def AddWorker_keys AddWorker_replicas replicas_new wid_samples
      vnodes_a vnodes_b NewConsistentHash_def)

lemma ringAB_ring: "ring ringAB = [774127560 \<mapsto> ''a'', 744653201 \<mapsto> ''b'']"
  by (rule ext) (simp add: ringAB_def AddWorker_ring AddWorker_replicas replicas_new wid_samples
      vnodes_a vnodes_b NewConsistentHash_def)

lemma ringAB_workers: "workers ringAB = [''a'' \<mapsto> workerA, ''b'' \<mapsto> workerB]"
  by (simp add: ringAB_def AddWorker_workers wid_samples NewConsistentHash_def)

lemma ringAB_collisionFree: "collisionFree ringAB"
proof -
  have new: "collisionFree (NewConsistentHash 1)"
    by (rule cf_new)
  have a: "collisionFree (AddWorker (NewConsistentHash 1) workerA)"
    by (rule cf_add [OF new])
      (simp_all add: GetID_def wid_samples replicas_new vnodes_a NewConsistentHash_def)
  show ?thesis
    unfolding ringAB_def
    by (rule cf_add [OF a])
      (simp_all add: GetID_def wid_samples AddWorker_replicas replicas_new vnodes_a vnodes_b
        AddWorker_workers AddWorker_keys NewConsistentHash_def)
qed

lemma ringAB_lookup_nil: "GetWorker ringAB [] = Inr (Some workerB)"
proof -
  have "GetWorker ringAB [] =
      Inr (workers ringAB (ringAt ringAB (successor (sortedKeys ringAB) (hashFunction []))))"
    by (rule GetWorker_successor) (simp_all add: ringAB_keys ringAB_ring)
  then show ?thesis
    by (simp add: ringAB_keys ringAB_ring ringAB_workers hash_nil successor_def ringAt_def)
qed

section \<open>Invariants of the collision-free ring states\<close>

lemma collisionFree_reachable: "collisionFree ch \<Longrightarrow> reachable ch"
  by (induction rule: collisionFree.induct) (auto intro: reachable.intros)

lemma collisionFree_distinct: "collisionFree ch \<Longrightarrow> distinct (sortedKeys ch)"
proof (induction rule: collisionFree.induct)
  case (cf_new r)
  show ?case by (simp add: NewConsistentHash_def)
next
  case (cf_add ch worker)
  then show ?case
    by (auto simp: AddWorker_keys GetID_def)
next
  case (cf_remove ch workerID)
  then show ?case
    by (simp add: RemoveWorker_distinct)
qed

lemma collisionFree_keys_ring:
  "collisionFree ch \<Longrightarrow> k \<in> set (sortedKeys ch) \<Longrightarrow> \<exists>X. ring ch k = Some X"
proof (induction arbitrary: k rule: collisionFree.induct)
  case (cf_new r)
  then show ?case by (simp add: NewConsistentHash_def)
next
  case (cf_add ch worker)
  show ?case
  proof (cases "k \<in> set (vnodeHashes (replicas ch) (wid worker))")
    case True
    then show ?thesis by (simp add: AddWorker_ring)
  next
    case False
    with cf_add.prems have "k \<in> set (sortedKeys ch)"
      by (simp add: AddWorker_keys)
    from cf_add.IH [OF this] False show ?thesis
      by (simp add: AddWorker_ring)
  qed
next
  case (cf_remove ch workerID)
  from cf_remove.hyps(1) have "distinct (sortedKeys ch)"
    by (rule collisionFree_distinct)
  with cf_remove.prems have k: "k \<in> set (sortedKeys ch)"
    and out: "k \<notin> set (vnodeHashes (replicas ch) workerID)"
    by (simp_all add: RemoveWorker_distinct)
  from cf_remove.IH [OF k] out show ?case
    by (simp add: RemoveWorker_ring)
qed

lemma collisionFree_owned:
  "collisionFree ch \<Longrightarrow> X \<in> dom (workers ch) \<Longrightarrow>
   k \<in> set (vnodeHashes (replicas ch) X) \<Longrightarrow> ring ch k = Some X"
proof (induction arbitrary: k X rule: collisionFree.induct)
  case (cf_new r)
  then show ?case by (simp add: NewConsistentHash_def)
next
  case (cf_add ch worker)
  from cf_add.prems(2) have kX: "k \<in> set (vnodeHashes (replicas ch) X)"
    by (simp add: AddWorker_replicas)
  show ?case
  proof (cases "X = wid worker")
    case True
    with kX show ?thesis by (simp add: AddWorker_ring)
  next
    case False
    with cf_add.prems(1) have "X \<in> dom (workers ch)"
      by (auto simp: AddWorker_workers)
    from cf_add.IH [OF this kX] have old: "ring ch k = Some X" .
    from cf_add.hyps(1) have "reachable ch"
      by (rule collisionFree_reachable)
    from reachable_ring_keys [OF this old] have "k \<in> set (sortedKeys ch)" .
    with cf_add.hyps(4) have "k \<notin> set (vnodeHashes (replicas ch) (wid worker))"
      by (auto simp: GetID_def)
    with old show ?thesis by (simp add: AddWorker_ring)
  qed
next
  case (cf_remove ch workerID)
  from cf_remove.prems have reg: "X \<in> dom (workers ch)" and ne: "X \<noteq> workerID"
    and kX: "k \<in> set (vnodeHashes (replicas ch) X)"
    by (auto simp: RemoveWorker_workers RemoveWorker_replicas split: if_splits)
  from cf_remove.IH [OF reg kX] have old: "ring ch k = Some X" .
  have "k \<notin> set (vnodeHashes (replicas ch) workerID)"
  proof
    assume "k \<in> set (vnodeHashes (replicas ch) workerID)"
    from cf_remove.IH [OF cf_remove.hyps(2) this] old ne show False by simp
  qed
  with old show ?case by (simp add: RemoveWorker_ring)
qed

text \<open>In a collision-free ring with a virtual node, every lookup finds a registered worker.\<close>

lemma collisionFree_lookup:
  assumes cf: "collisionFree ch" and ne: "ring ch \<noteq> Map.empty"
  shows "\<exists>w. GetWorker ch t = Inr (Some w) \<and>
    ring ch (successor (sortedKeys ch) (hashFunction t)) = Some (wid w) \<and>
    workers ch (wid w) = Some w"
proof -
  from cf have rch: "reachable ch" by (rule collisionFree_reachable)
  from ne obtain k0 X0 where "ring ch k0 = Some X0"
    by (metis not_Some_eq ext)
  from reachable_ring_keys [OF rch this] have keys: "sortedKeys ch \<noteq> []"
    by auto
  let ?k = "successor (sortedKeys ch) (hashFunction t)"
  from keys have "?k \<in> set (sortedKeys ch)" by (rule successor_mem)
  from collisionFree_keys_ring [OF cf this] obtain X where X: "ring ch ?k = Some X" ..
  from reachable_owner [OF rch X] obtain w where w: "workers ch X = Some w"
    by auto
  from reachable_wid [OF rch w] have id: "wid w = X" .
  have "GetWorker ch t = Inr (workers ch (ringAt ch ?k))"
    using reachable_sorted [OF rch] keys ne by (rule GetWorker_successor)
  with X w id show ?thesis
    by (simp add: ringAt_def)
qed

section \<open>Lookups in reachable and collision-free rings\<close>

lemma sorted_hd_Min:
  fixes xs :: "'a::linorder list"
  shows "sorted xs \<Longrightarrow> xs \<noteq> [] \<Longrightarrow> hd xs = Min (set xs)"
  by (cases xs) (auto intro!: Min_eqI [symmetric])

lemma reachable_nonempty:
  assumes "reachable ch" and "ring ch \<noteq> Map.empty"
  shows "sortedKeys ch \<noteq> []"
proof -
  from assms(2) obtain k X where "ring ch k = Some X"
    by (metis not_Some_eq ext)
  from reachable_ring_keys [OF assms(1) this] show ?thesis
    by auto
qed

lemma reachable_lookup:
  assumes "reachable ch" and "ring ch \<noteq> Map.empty"
  shows "GetWorker ch t =
    Inr (workers ch (ringAt ch (successor (sortedKeys ch) (hashFunction t))))"
  using reachable_sorted [OF assms(1)] reachable_nonempty [OF assms] assms(2)
  by (rule GetWorker_successor)

lemma removed_keys:
  assumes cf: "collisionFree ch" and reg: "W \<in> dom (workers ch)"
  shows "sortedKeys (RemoveWorker ch W) =
    filter (\<lambda>k. ring ch k \<noteq> Some W) (sortedKeys ch)"
proof -
  have "sortedKeys (RemoveWorker ch W) =
      filter (\<lambda>k. k \<notin> set (vnodeHashes (replicas ch) W)) (sortedKeys ch)"
    using collisionFree_distinct [OF cf] by (rule RemoveWorker_distinct)
  also have "\<dots> = filter (\<lambda>k. ring ch k \<noteq> Some W) (sortedKeys ch)"
  proof (rule filter_cong [OF refl])
    fix k assume "k \<in> set (sortedKeys ch)"
    show "(k \<notin> set (vnodeHashes (replicas ch) W)) = (ring ch k \<noteq> Some W)"
    proof
      assume out: "k \<notin> set (vnodeHashes (replicas ch) W)"
      show "ring ch k \<noteq> Some W"
      proof
        assume "ring ch k = Some W"
        from reachable_owner [OF collisionFree_reachable [OF cf] this] out show False
          by simp
      qed
    next
      assume other: "ring ch k \<noteq> Some W"
      show "k \<notin> set (vnodeHashes (replicas ch) W)"
      proof
        assume "k \<in> set (vnodeHashes (replicas ch) W)"
        from collisionFree_owned [OF cf reg this] other show False
          by simp
      qed
    qed
  qed
  finally show ?thesis .
qed

lemma removed_ring:
  assumes cf: "collisionFree ch" and reg: "W \<in> dom (workers ch)"
  shows "ring (RemoveWorker ch W) k = (if ring ch k = Some W then None else ring ch k)"
proof (cases "k \<in> set (vnodeHashes (replicas ch) W)")
  case True
  from collisionFree_owned [OF cf reg True] True show ?thesis
    by (simp add: RemoveWorker_ring)
next
  case False
  have "ring ch k \<noteq> Some W"
  proof
    assume "ring ch k = Some W"
    from reachable_owner [OF collisionFree_reachable [OF cf] this] False show False
      by simp
  qed
  with False show ?thesis
    by (simp add: RemoveWorker_ring)
qed

lemma removed_lookup:
  assumes cf: "collisionFree ch" and reg: "W \<in> dom (workers ch)"
  shows "GetWorker (RemoveWorker ch W) t =
    (if \<forall>k \<in> set (sortedKeys ch). ring ch k = Some W then Inl NoWorkersAvailable
     else Inr (workers ch (ringAt ch
       (successor (filter (\<lambda>k. ring ch k \<noteq> Some W) (sortedKeys ch)) (hashFunction t)))))"
proof (cases "\<forall>k \<in> set (sortedKeys ch). ring ch k = Some W")
  case True
  have "ring (RemoveWorker ch W) k = None" for k
  proof (cases "ring ch k")
    case None
    then show ?thesis by (simp add: removed_ring [OF cf reg])
  next
    case (Some X)
    from reachable_ring_keys [OF collisionFree_reachable [OF cf] Some] True
    have "ring ch k = Some W" by simp
    then show ?thesis by (simp add: removed_ring [OF cf reg])
  qed
  then have "ring (RemoveWorker ch W) = Map.empty"
    by (rule ext)
  with True show ?thesis
    by (simp add: GetWorker_def)
next
  case False
  let ?ch = "RemoveWorker ch W"
  let ?keys = "filter (\<lambda>k. ring ch k \<noteq> Some W) (sortedKeys ch)"
  let ?k = "successor ?keys (hashFunction t)"
  have keys: "sortedKeys ?ch = ?keys"
    using cf reg by (rule removed_keys)
  from False have ne: "?keys \<noteq> []"
    by (auto simp: filter_empty_conv)
  then have "?k \<in> set ?keys"
    by (rule successor_mem)
  then have k: "?k \<in> set (sortedKeys ch)" and other: "ring ch ?k \<noteq> Some W"
    by simp_all
  from collisionFree_keys_ring [OF cf k] obtain X where X: "ring ch ?k = Some X" ..
  with other have XW: "X \<noteq> W" by auto
  from X XW have ring': "ring ?ch ?k = Some X"
    by (simp add: removed_ring [OF cf reg])
  then have nonempty: "ring ?ch \<noteq> Map.empty"
    by (metis option.distinct(1))
  have rch: "reachable ?ch"
    using collisionFree_reachable [OF cf] by (rule reachable.remove)
  have "GetWorker ?ch t = Inr (workers ?ch (ringAt ?ch (successor (sortedKeys ?ch) (hashFunction t))))"
    using rch nonempty by (rule reachable_lookup)
  also have "\<dots> = Inr (workers ?ch (ringAt ?ch ?k))"
    by (simp only: keys)
  also have "ringAt ?ch ?k = X"
    using ring' by (simp add: ringAt_def)
  also have "workers ?ch X = workers ch X"
    using XW by (simp add: RemoveWorker_workers)
  also have "X = ringAt ch ?k"
    using X by (simp add: ringAt_def)
  finally show ?thesis
    using False by (simp only: if_False)
qed

lemma kept_lookup:
  assumes cf: "collisionFree ch" and reg: "W \<in> dom (workers ch)"
    and before: "GetWorker ch t = Inr (Some w)" and other: "wid w \<noteq> W"
  shows "GetWorker (RemoveWorker ch W) t = Inr (Some w)"
proof -
  let ?P = "\<lambda>k. ring ch k \<noteq> Some W"
  let ?k = "successor (sortedKeys ch) (hashFunction t)"
  from before have ne: "ring ch \<noteq> Map.empty"
    by (auto simp: GetWorker_def)
  from collisionFree_lookup [OF cf ne, of t] before
  have owner: "ring ch ?k = Some (wid w)" and handle: "workers ch (wid w) = Some w"
    by auto
  have keys: "sortedKeys ch \<noteq> []"
    using collisionFree_reachable [OF cf] ne by (rule reachable_nonempty)
  from owner other have P: "?P ?k" by simp
  from keys have mem: "?k \<in> set (sortedKeys ch)"
    by (rule successor_mem)
  from mem P have some: "\<not> (\<forall>k \<in> set (sortedKeys ch). ring ch k = Some W)"
    by blast
  have same: "successor (filter ?P (sortedKeys ch)) (hashFunction t) = ?k"
    using keys P by (rule successor_filter)
  have "GetWorker (RemoveWorker ch W) t =
      Inr (workers ch (ringAt ch (successor (filter ?P (sortedKeys ch)) (hashFunction t))))"
    using removed_lookup [OF cf reg, of t] some by (simp only: if_False)
  also have "\<dots> = Inr (workers ch (ringAt ch ?k))"
    by (simp only: same)
  also have "ringAt ch ?k = wid w"
    using owner by (simp add: ringAt_def)
  finally show ?thesis
    using handle by simp
qed

lemma successor_wraps:
  assumes "reachable ch" and "ring ch \<noteq> Map.empty"
    and "\<forall>k \<in> set (sortedKeys ch). k < h"
  shows "successor (sortedKeys ch) h = Min (set (sortedKeys ch))"
proof -
  have keys: "sortedKeys ch \<noteq> []"
    using assms(1,2) by (rule reachable_nonempty)
  from assms(3) have "filter (\<lambda>k. h \<le> k) (sortedKeys ch) = []"
    by (rule filter_below)
  then have "successor (sortedKeys ch) h = hd (sortedKeys ch)"
    by (simp add: successor_def)
  also have "\<dots> = Min (set (sortedKeys ch))"
    using reachable_sorted [OF assms(1)] keys by (rule sorted_hd_Min)
  finally show ?thesis .
qed

section \<open>More facts about the sample states\<close>

lemma ringAB_reachable: "reachable ringAB"
  using ringAB_collisionFree by (rule collisionFree_reachable)

lemma ringAB_nonempty: "ring ringAB \<noteq> Map.empty"
  by (simp add: ringAB_ring)

lemma doubleAdd_keys:
  "sortedKeys (AddWorker (AddWorker (NewConsistentHash 1) workerA) workerA) =
     [774127560, 774127560]"
  by (simp add: AddWorker_keys AddWorker_replicas replicas_new wid_samples vnodes_a
      NewConsistentHash_def)

lemma singleAdd_keys: "sortedKeys (AddWorker (NewConsistentHash 1) workerA) = [774127560]"
  by (simp add: AddWorker_keys replicas_new wid_samples vnodes_a NewConsistentHash_def)

lemma staleRing_reachable: "reachable staleRing"
  unfolding staleRing_def by (intro reachable.intros)

lemma staleRing_keys: "sortedKeys staleRing = [774127560]"
  by (simp add: staleRing_def RemoveWorker_def Let_def AddWorker_replicas replicas_new
      vnodes_a removeVirtualNode_def doubleAdd_keys)

lemma staleRing_ring: "ring staleRing = Map.empty"
  by (rule ext) (simp add: staleRing_def RemoveWorker_ring AddWorker_ring AddWorker_replicas
      replicas_new wid_samples vnodes_a NewConsistentHash_def)

lemma staleRing_workers: "workers staleRing = Map.empty"
  by (rule ext) (simp add: staleRing_def RemoveWorker_workers AddWorker_workers wid_samples
      NewConsistentHash_def)

lemma staleRing_replicas: "replicas staleRing = 1"
  by (simp add: staleRing_def RemoveWorker_replicas AddWorker_replicas replicas_new)

lemma staleRingB_reachable: "reachable staleRingB"
  unfolding staleRingB_def using staleRing_reachable by (rule reachable.add)

lemma staleRingB_keys: "sortedKeys staleRingB = [744653201, 774127560]"
  by (simp add: staleRingB_def AddWorker_keys staleRing_keys staleRing_replicas wid_samples
      vnodes_b)

lemma staleRingB_ring: "ring staleRingB = [744653201 \<mapsto> ''b'']"
  by (rule ext) (simp add: staleRingB_def AddWorker_ring staleRing_ring staleRing_replicas
      wid_samples vnodes_b)

lemma staleRingB_workers: "workers staleRingB = [''b'' \<mapsto> workerB]"
  by (simp add: staleRingB_def AddWorker_workers staleRing_workers wid_samples)

lemma zeroReplicas_ring: "ring (AddWorker (NewConsistentHash 0) workerA) = Map.empty"
  by (rule ext) (simp add: AddWorker_ring replicas_new vnodeHashes_def NewConsistentHash_def)

lemma doubleAddB_keys:
  "sortedKeys (AddWorker (AddWorker (NewConsistentHash 1) workerB) workerB) =
     [744653201, 744653201]"
  by (simp add: AddWorker_keys AddWorker_replicas replicas_new wid_samples vnodes_b
      NewConsistentHash_def)

lemma staleRingA_reachable: "reachable staleRingA"
  unfolding staleRingA_def by (intro reachable.intros)

lemma removedB_keys:
  "sortedKeys (RemoveWorker (AddWorker (AddWorker (NewConsistentHash 1) workerB) workerB) ''b'') =
     [744653201]"
  by (simp add: RemoveWorker_def Let_def AddWorker_replicas replicas_new vnodes_b
      removeVirtualNode_def doubleAddB_keys)

lemma staleRingA_keys: "sortedKeys staleRingA = [744653201, 774127560]"
proof -
  have "sortedKeys staleRingA = sort ([744653201] @ [774127560])"
    unfolding staleRingA_def
    by (simp only: AddWorker_keys removedB_keys RemoveWorker_replicas AddWorker_replicas
        replicas_new wid_samples vnodes_a)
  then show ?thesis
    by simp
qed

lemma staleRingA_ring: "ring staleRingA = [774127560 \<mapsto> ''a'']"
  by (rule ext) (simp add: staleRingA_def AddWorker_ring RemoveWorker_ring RemoveWorker_replicas
      AddWorker_replicas replicas_new wid_samples vnodes_a vnodes_b NewConsistentHash_def)

lemma staleRingA_workers: "workers staleRingA = [''a'' \<mapsto> workerA]"
  by (rule ext) (simp add: staleRingA_def AddWorker_workers RemoveWorker_workers wid_samples
      NewConsistentHash_def)

section \<open>The bounded task queue\<close>

lemma submitAll_fits:
  "length (cbuf (taskChan wm)) + length ts \<le> ccap (taskChan wm) \<Longrightarrow>
   submitAll wm ts =
     (replicate (length ts) None,
      wm\<lparr>taskChan := (taskChan wm)\<lparr>cbuf := cbuf (taskChan wm) @ ts\<rparr>\<rparr>)"
proof (induction ts arbitrary: wm)
  case Nil
  show ?case by simp
next
  case (Cons t ts)
  let ?wm1 = "wm\<lparr>taskChan := (taskChan wm)\<lparr>cbuf := cbuf (taskChan wm) @ [t]\<rparr>\<rparr>"
  from Cons.prems have room: "length (cbuf (taskChan wm)) < ccap (taskChan wm)"
    by simp
  then have first: "SubmitTask wm t = (None, ?wm1)"
    by (simp add: SubmitTask_def trySend_def)
  from Cons.prems have "length (cbuf (taskChan ?wm1)) + length ts \<le> ccap (taskChan ?wm1)"
    by simp
  then have "submitAll ?wm1 ts =
      (replicate (length ts) None,
       ?wm1\<lparr>taskChan := (taskChan ?wm1)\<lparr>cbuf := cbuf (taskChan ?wm1) @ ts\<rparr>\<rparr>)"
    by (rule Cons.IH)
  with first show ?case by simp
qed

text \<open>
  Claim C7 (backpressure).  \<^verbatim>\<open>SubmitTask\<close> on a queue that holds as many tasks as
  its capacity returns the queue-full error at once and leaves the manager as it
  was; once the dispatch loop has taken one task off the queue, the next
  \<^verbatim>\<open>SubmitTask\<close> succeeds and appends its task behind the tasks that remained.
\<close>

theorem SubmitTask_backpressure:
  assumes full: "length (cbuf (taskChan wm)) = ccap (taskChan wm)"
    and cap: "0 < ccap (taskChan wm)"
  shows "SubmitTask wm task = (Some TaskQueueFull, wm) \<and>
    (\<exists>t0 c. tryRecv (taskChan wm) = Some (t0, c) \<and>
       SubmitTask (wm\<lparr>taskChan := c\<rparr>) task =
         (None, wm\<lparr>taskChan := c\<lparr>cbuf := tl (cbuf (taskChan wm)) @ [task]\<rparr>\<rparr>))"
proof -
  from full have rej: "SubmitTask wm task = (Some TaskQueueFull, wm)"
    by (simp add: SubmitTask_def trySend_def)
  from full cap obtain t0 ts where buf: "cbuf (taskChan wm) = t0 # ts"
    by (cases "cbuf (taskChan wm)") auto
  let ?c = "(taskChan wm)\<lparr>cbuf := ts\<rparr>"
  have r: "tryRecv (taskChan wm) = Some (t0, ?c)"
    by (simp add: tryRecv_def buf)
  from full buf have "length (cbuf ?c) < ccap ?c"
    by simp
  then have "SubmitTask (wm\<lparr>taskChan := ?c\<rparr>) task =
      (None, wm\<lparr>taskChan := ?c\<lparr>cbuf := tl (cbuf (taskChan wm)) @ [task]\<rparr>\<rparr>)"
    by (simp add: SubmitTask_def trySend_def buf)
  with rej r show ?thesis by blast
qed

theorem SubmitTask_backpressure_witness:
  "length (cbuf (taskChan fullManager)) = ccap (taskChan fullManager) \<and>
   0 < ccap (taskChan fullManager) \<and>
   SubmitTask fullManager \<lparr>ID = ''u'', Payload = [], Created = 1\<rparr> = (Some TaskQueueFull, fullManager)"
proof -
  have a: "length (cbuf (taskChan fullManager)) = ccap (taskChan fullManager)"
    by (simp add: fullManager_def)
  have b: "0 < ccap (taskChan fullManager)"
    by (simp add: fullManager_def)
  from SubmitTask_backpressure [OF a b] a b show ?thesis by blast
qed

text \<open>
  Claim C10 (the queue holds exactly 100 tasks).  From a new manager, with the
  dispatch loop not running, 100 calls of \<^verbatim>\<open>SubmitTask\<close> in a row all return no
  error and leave the 100 tasks queued in order; the call after them returns the
  queue-full error.
\<close>

theorem queue_capacity_100:
  assumes "length ts = 100"
  shows "submitAll (NewWorkerManager r) ts =
      (replicate 100 None, (NewWorkerManager r)\<lparr>taskChan := \<lparr>cbuf = ts, ccap = 100\<rparr>\<rparr>) \<and>
    fst (SubmitTask (snd (submitAll (NewWorkerManager r) ts)) task) = Some TaskQueueFull"
proof -
  have "length (cbuf (taskChan (NewWorkerManager r))) + length ts
      \<le> ccap (taskChan (NewWorkerManager r))"
    using assms by (simp add: NewWorkerManager_def makeChan_def)
  from submitAll_fits [OF this] assms
  have all: "submitAll (NewWorkerManager r) ts =
      (replicate 100 None, (NewWorkerManager r)\<lparr>taskChan := \<lparr>cbuf = ts, ccap = 100\<rparr>\<rparr>)"
    by (simp add: NewWorkerManager_def makeChan_def)
  then have "fst (SubmitTask (snd (submitAll (NewWorkerManager r) ts)) task) = Some TaskQueueFull"
    using assms by (simp add: SubmitTask_def trySend_def)
  with all show ?thesis by blast
qed

theorem queue_capacity_100_witness:
  "length (replicate 100 \<lparr>ID = ''t'', Payload = [], Created = 0\<rparr>) = 100 \<and>
   submitAll (NewWorkerManager 3) (replicate 100 \<lparr>ID = ''t'', Payload = [], Created = 0\<rparr>) =
     (replicate 100 None, (NewWorkerManager 3)\<lparr>taskChan :=
        \<lparr>cbuf = replicate 100 \<lparr>ID = ''t'', Payload = [], Created = 0\<rparr>, ccap = 100\<rparr>\<rparr>) \<and>
   fst (SubmitTask (snd (submitAll (NewWorkerManager 3)
        (replicate 100 \<lparr>ID = ''t'', Payload = [], Created = 0\<rparr>)))
      \<lparr>ID = ''u'', Payload = [], Created = 1\<rparr>) = Some TaskQueueFull"
proof -
  have a: "length (replicate 100 \<lparr>ID = ''t'', Payload = [], Created = 0\<rparr>) = 100"
    by simp
  from queue_capacity_100 [OF a, of 3 "\<lparr>ID = ''u'', Payload = [], Created = 1\<rparr>"] a
  show ?thesis by blast
qed

section \<open>The dispatch loop\<close>

text \<open>
  Claim C8 (health exclusion, drop only).  When the dispatch loop has taken a task
  off the queue and the lookup fails, or the worker it is routed to is not healthy,
  the iteration starts no \<^verbatim>\<open>ProcessTask\<close> for it, puts nothing back on the queue
  (the queue is the rest behind the task), prints one report, leaves the ring alone
  and goes on to the next iteration.
\<close>

theorem dispatch_drops:
  assumes rcv: "tryRecv (taskChan wm) = Some (task, c)"
    and bad: "GetWorker (hash wm) (ID task) = Inl NoWorkersAvailable \<or>
      (\<exists>worker. GetWorker (hash wm) (ID task) = Inr (Some worker) \<and> \<not> IsHealthy worker)"
  shows "\<exists>wm' rep. handleTask (wm\<lparr>taskChan := c\<rparr>) task = Continue wm' \<and>
      taskProcessorStep wm (Continue wm') \<and>
      started wm' = started wm \<and>
      cbuf (taskChan wm') = tl (cbuf (taskChan wm)) \<and>
      reports wm' = reports wm @ [rep] \<and>
      hash wm' = hash wm"
proof -
  from rcv have q: "cbuf c = tl (cbuf (taskChan wm))"
    by (auto simp: tryRecv_def split: list.splits)
  let ?wm = "wm\<lparr>taskChan := c\<rparr>"
  from bad have "\<exists>wm' rep. handleTask ?wm task = Continue wm' \<and>
      started wm' = started wm \<and> taskChan wm' = c \<and>
      reports wm' = reports wm @ [rep] \<and> hash wm' = hash wm"
    by (auto simp: handleTask_def)
  then obtain wm' rep where h: "handleTask ?wm task = Continue wm'"
    and rest: "started wm' = started wm" "taskChan wm' = c"
      "reports wm' = reports wm @ [rep]" "hash wm' = hash wm"
    by blast
  from taskProcessorStep.recv [OF rcv] h have "taskProcessorStep wm (Continue wm')"
    by simp
  with h rest q show ?thesis by auto
qed

theorem dispatch_drops_witness:
  "tryRecv (taskChan idleRing) = Some (\<lparr>ID = ''t'', Payload = [], Created = 0\<rparr>, makeChan 100) \<and>
   GetWorker (hash idleRing) ''t'' = Inl NoWorkersAvailable \<and>
   (\<exists>wm' rep. handleTask (idleRing\<lparr>taskChan := makeChan 100\<rparr>)
        \<lparr>ID = ''t'', Payload = [], Created = 0\<rparr> = Continue wm' \<and>
      taskProcessorStep idleRing (Continue wm') \<and>
      started wm' = started idleRing \<and>
      cbuf (taskChan wm') = tl (cbuf (taskChan idleRing)) \<and>
      reports wm' = reports idleRing @ [rep] \<and>
      hash wm' = hash idleRing)"
proof -
  have a: "tryRecv (taskChan idleRing) =
      Some (\<lparr>ID = ''t'', Payload = [], Created = 0\<rparr>, makeChan 100)"
    by (simp add: idleRing_def tryRecv_def makeChan_def)
  have b: "GetWorker (hash idleRing) ''t'' = Inl NoWorkersAvailable"
    by (simp add: idleRing_def NewWorkerManager_def NewConsistentHash_def GetWorker_def)
  have c: "GetWorker (hash idleRing) (ID \<lparr>ID = ''t'', Payload = [], Created = 0\<rparr>) =
        Inl NoWorkersAvailable \<or>
      (\<exists>worker. GetWorker (hash idleRing) (ID \<lparr>ID = ''t'', Payload = [], Created = 0\<rparr>) =
        Inr (Some worker) \<and> \<not> IsHealthy worker)"
    using b by simp
  from dispatch_drops [OF a c] a b show ?thesis by blast
qed

section \<open>The claims about the hash ring\<close>

text \<open>
  Claim C1 (minimal disruption).  In a ring state where no worker was added while
  registered and no two virtual-node hashes collide, removing a registered worker
  \<open>W\<close> leaves the target of every task routed to another worker as it was; a task
  changes target only if its nearest successor virtual node belonged to \<open>W\<close>; and
  after the removal every task goes to the owner of the first virtual node at or
  after its hash, clockwise, among the nodes that are not \<open>W\<close>'s (the lookup fails
  when \<open>W\<close> owned them all).
\<close>

theorem minimal_disruption:
  assumes cf: "collisionFree ch" and reg: "W \<in> dom (workers ch)"
  shows "(\<forall>w. GetWorker ch t = Inr (Some w) \<and> wid w \<noteq> W \<longrightarrow>
        GetWorker (RemoveWorker ch W) t = Inr (Some w)) \<and>
    (GetWorker (RemoveWorker ch W) t \<noteq> GetWorker ch t \<longrightarrow>
        (\<exists>w. GetWorker ch t = Inr (Some w) \<and> wid w = W)) \<and>
    GetWorker (RemoveWorker ch W) t =
      (if \<forall>k \<in> set (sortedKeys ch). ring ch k = Some W then Inl NoWorkersAvailable
       else Inr (workers ch (ringAt ch
         (successor (filter (\<lambda>k. ring ch k \<noteq> Some W) (sortedKeys ch)) (hashFunction t)))))"
proof (intro conjI allI impI)
  fix w assume "GetWorker ch t = Inr (Some w) \<and> wid w \<noteq> W"
  then show "GetWorker (RemoveWorker ch W) t = Inr (Some w)"
    using kept_lookup [OF cf reg] by blast
next
  assume changed: "GetWorker (RemoveWorker ch W) t \<noteq> GetWorker ch t"
  show "\<exists>w. GetWorker ch t = Inr (Some w) \<and> wid w = W"
  proof (cases "ring ch = Map.empty")
    case True
    have "ring (RemoveWorker ch W) k = None" for k
      using True by (simp add: RemoveWorker_ring)
    then have "ring (RemoveWorker ch W) = Map.empty"
      by (rule ext)
    with True changed show ?thesis
      by (simp add: GetWorker_def)
  next
    case False
    from collisionFree_lookup [OF cf False, of t] obtain w
      where w: "GetWorker ch t = Inr (Some w)" by blast
    show ?thesis
    proof (cases "wid w = W")
      case True
      with w show ?thesis by blast
    next
      case other: False
      from kept_lookup [OF cf reg w other] w changed show ?thesis
        by simp
    qed
  qed
next
  show "GetWorker (RemoveWorker ch W) t =
      (if \<forall>k \<in> set (sortedKeys ch). ring ch k = Some W then Inl NoWorkersAvailable
       else Inr (workers ch (ringAt ch
         (successor (filter (\<lambda>k. ring ch k \<noteq> Some W) (sortedKeys ch)) (hashFunction t)))))"
    using cf reg by (rule removed_lookup)
qed

theorem minimal_disruption_witness:
  "collisionFree ringAB \<and> ''a'' \<in> dom (workers ringAB) \<and>
   GetWorker ringAB [] = Inr (Some workerB) \<and> wid workerB \<noteq> ''a'' \<and>
   GetWorker (RemoveWorker ringAB ''a'') [] = Inr (Some workerB)"
proof -
  have reg: "''a'' \<in> dom (workers ringAB)"
    by (simp add: ringAB_workers)
  have other: "wid workerB \<noteq> ''a''"
    by (simp add: wid_samples)
  from minimal_disruption [OF ringAB_collisionFree reg, of "[]"] ringAB_lookup_nil other
  have "GetWorker (RemoveWorker ringAB ''a'') [] = Inr (Some workerB)"
    by blast
  with ringAB_collisionFree reg ringAB_lookup_nil other show ?thesis
    by blast
qed



text \<open>
  Claim C3 (wrap-around), as amended.  In a ring with a virtual node in which no
  worker was added while registered and no two virtual-node hashes collide, a task
  ID whose hash is above every key of the sorted key list is routed to the
  registered worker that owns the smallest key.
\<close>

theorem wrap_around_amended:
  assumes "collisionFree ch" and "ring ch \<noteq> Map.empty"
    and "\<forall>k \<in> set (sortedKeys ch). k < hashFunction t"
  shows "\<exists>w. GetWorker ch t = Inr (Some w) \<and>
    ring ch (Min (set (sortedKeys ch))) = Some (wid w) \<and>
    workers ch (wid w) = Some w"
proof -
  have "successor (sortedKeys ch) (hashFunction t) = Min (set (sortedKeys ch))"
    using collisionFree_reachable [OF assms(1)] assms(2,3) by (rule successor_wraps)
  with collisionFree_lookup [OF assms(1,2), of t] show ?thesis
    by simp
qed

theorem wrap_around_amended_witness:
  "collisionFree ringAB \<and> ring ringAB \<noteq> Map.empty \<and>
   sortedKeys ringAB = [744653201, 774127560] \<and>
   744653201 < hashFunction ''x'' \<and> 774127560 < hashFunction ''x'' \<and>
   ring ringAB 744653201 = Some ''b'' \<and>
   GetWorker ringAB ''x'' = Inr (Some workerB)"
proof -
  have above: "\<forall>k \<in> set (sortedKeys ringAB). k < hashFunction ''x''"
    by (simp add: ringAB_keys hash_x)
  have a: "744653201 < hashFunction ''x''" and b: "774127560 < hashFunction ''x''"
    by (simp_all add: hash_x)
  have least: "Min (set (sortedKeys ringAB)) = 744653201"
    by (simp add: ringAB_keys)
  have owner: "ring ringAB 744653201 = Some ''b''"
    by (simp add: ringAB_ring)
  from wrap_around_amended [OF ringAB_collisionFree ringAB_nonempty above]
  obtain w where w: "GetWorker ringAB ''x'' = Inr (Some w)"
    and o: "ring ringAB (Min (set (sortedKeys ringAB))) = Some (wid w)"
    and h: "workers ringAB (wid w) = Some w"
    by blast
  from o least owner have "wid w = ''b''"
    by simp
  with h have "w = workerB"
    by (simp add: ringAB_workers)
  with w have "GetWorker ringAB ''x'' = Inr (Some workerB)"
    by simp
  with ringAB_collisionFree ringAB_nonempty ringAB_keys a b owner show ?thesis
    by blast
qed

text \<open>
  The claim as stated fails on a ring that holds a stale key: after \<^verbatim>\<open>AddWorker\<close>
  twice and \<^verbatim>\<open>RemoveWorker\<close> once of one worker and \<^verbatim>\<open>AddWorker\<close> of another, the
  smallest key has no owner, and the task that wraps around to it gets a nil worker
  with a nil error.
\<close>

theorem wrap_around_counterexample:
  "reachable staleRingA \<and> ring staleRingA 774127560 = Some ''a'' \<and>
   sortedKeys staleRingA = [744653201, 774127560] \<and>
   744653201 < hashFunction ''x'' \<and> 774127560 < hashFunction ''x'' \<and>
   ring staleRingA 744653201 = None \<and>
   GetWorker staleRingA ''x'' = Inr None"
proof -
  have entry: "ring staleRingA 774127560 = Some ''a''" and stale: "ring staleRingA 744653201 = None"
    by (simp_all add: staleRingA_ring)
  have a: "744653201 < hashFunction ''x''" and b: "774127560 < hashFunction ''x''"
    by (simp_all add: hash_x)
  from entry have ne: "ring staleRingA \<noteq> Map.empty"
    by (metis option.distinct(1))
  have "GetWorker staleRingA ''x'' =
      Inr (workers staleRingA
        (ringAt staleRingA (successor (sortedKeys staleRingA) (hashFunction ''x''))))"
    using staleRingA_reachable ne by (rule reachable_lookup)
  then have "GetWorker staleRingA ''x'' = Inr None"
    by (simp add: staleRingA_keys staleRingA_ring staleRingA_workers hash_x successor_def
        ringAt_def)
  with staleRingA_reachable entry staleRingA_keys a b stale show ?thesis
    by blast
qed

text \<open>
  Claim C4 (adding a registered worker again), as amended.  \<^verbatim>\<open>AddWorker\<close> has no
  guard for a worker ID that is already registered: a second \<^verbatim>\<open>AddWorker\<close> with the
  same ID replaces the handle and rewrites the same entries of the hash-to-WorkerID
  map, so the map is the one a single \<^verbatim>\<open>AddWorker\<close> produces, but it appends the R
  virtual-node hashes to the sorted key list once more: the list stays ascending
  and gains R entries, each hash of the worker occurring once more than before.
\<close>

theorem AddWorker_again:
  assumes "wid w' = wid w"
  shows "ring (AddWorker (AddWorker ch w) w') = ring (AddWorker ch w) \<and>
    workers (AddWorker (AddWorker ch w) w') = (workers ch)(wid w \<mapsto> w') \<and>
    sorted (sortedKeys (AddWorker (AddWorker ch w) w')) \<and>
    mset (sortedKeys (AddWorker (AddWorker ch w) w')) =
      mset (sortedKeys (AddWorker ch w)) + mset (vnodeHashes (replicas ch) (wid w)) \<and>
    length (sortedKeys (AddWorker (AddWorker ch w) w')) =
      length (sortedKeys (AddWorker ch w)) + nat (replicas ch)"
proof -
  have "ring (AddWorker (AddWorker ch w) w') k = ring (AddWorker ch w) k" for k
    using assms by (simp add: AddWorker_ring AddWorker_replicas)
  then have "ring (AddWorker (AddWorker ch w) w') = ring (AddWorker ch w)"
    by (rule ext)
  moreover have "workers (AddWorker (AddWorker ch w) w') = (workers ch)(wid w \<mapsto> w')"
    using assms by (simp add: AddWorker_workers)
  moreover have "sorted (sortedKeys (AddWorker (AddWorker ch w) w'))"
    by (simp add: AddWorker_keys)
  moreover have "mset (sortedKeys (AddWorker (AddWorker ch w) w')) =
      mset (sortedKeys (AddWorker ch w)) + mset (vnodeHashes (replicas ch) (wid w))"
    using assms by (simp add: AddWorker_keys [of "AddWorker ch w"] AddWorker_replicas)
  moreover have "length (sortedKeys (AddWorker (AddWorker ch w) w')) =
      length (sortedKeys (AddWorker ch w)) + nat (replicas ch)"
    using assms
    by (simp add: AddWorker_keys [of "AddWorker ch w"] AddWorker_replicas vnodeHashes_def)
  ultimately show ?thesis by blast
qed

theorem AddWorker_again_witness:
  "wid workerA = wid workerA \<and>
   ring (AddWorker (AddWorker (NewConsistentHash 1) workerA) workerA) =
     ring (AddWorker (NewConsistentHash 1) workerA) \<and>
   length (sortedKeys (AddWorker (AddWorker (NewConsistentHash 1) workerA) workerA)) =
     length (sortedKeys (AddWorker (NewConsistentHash 1) workerA)) + 1"
proof -
  have same: "wid workerA = wid workerA" ..
  from AddWorker_again [OF same, of "NewConsistentHash 1"] show ?thesis
    by (simp add: replicas_new)
qed

text \<open>
  The claim as stated fails: with one replica, the second \<^verbatim>\<open>AddWorker\<close> of the same
  worker leaves its hash twice in the sorted key list, and the state differs from
  the one after a single \<^verbatim>\<open>AddWorker\<close>.
\<close>

theorem AddWorker_idempotent_counterexample:
  "sortedKeys (AddWorker (NewConsistentHash 1) workerA) = [774127560] \<and>
   sortedKeys (AddWorker (AddWorker (NewConsistentHash 1) workerA) workerA) =
     [774127560, 774127560] \<and>
   AddWorker (AddWorker (NewConsistentHash 1) workerA) workerA \<noteq>
     AddWorker (NewConsistentHash 1) workerA"
proof -
  have "sortedKeys (AddWorker (AddWorker (NewConsistentHash 1) workerA) workerA) \<noteq>
      sortedKeys (AddWorker (NewConsistentHash 1) workerA)"
    by (simp add: doubleAdd_keys singleAdd_keys)
  then have "AddWorker (AddWorker (NewConsistentHash 1) workerA) workerA \<noteq>
      AddWorker (NewConsistentHash 1) workerA"
    by auto
  with doubleAdd_keys singleAdd_keys show ?thesis
    by blast
qed

text \<open>
  Claim C5 (ring invariant), as amended.  After every sequence of \<^verbatim>\<open>AddWorker\<close> and
  \<^verbatim>\<open>RemoveWorker\<close> calls the sorted key list is in ascending order, and every entry
  of the hash-to-WorkerID map has its hash in the key list and a WorkerID that is
  registered in the workers map.  That every hash in the key list has such a map
  entry holds when no worker is added while registered, no two virtual-node hashes
  collide and only registered workers are removed.
\<close>

theorem ring_invariant_amended:
  "(reachable ch \<longrightarrow>
      sorted (sortedKeys ch) \<and>
      (\<forall>k X. ring ch k = Some X \<longrightarrow> k \<in> set (sortedKeys ch) \<and> X \<in> dom (workers ch))) \<and>
   (collisionFree ch \<longrightarrow>
      (\<forall>h \<in> set (sortedKeys ch). \<exists>X. ring ch h = Some X \<and> X \<in> dom (workers ch)))"
proof (intro conjI impI allI ballI)
  assume "reachable ch"
  then show "sorted (sortedKeys ch)" by (rule reachable_sorted)
next
  fix k X assume "reachable ch" and "ring ch k = Some X"
  then show "k \<in> set (sortedKeys ch)" by (rule reachable_ring_keys)
next
  fix k X assume "reachable ch" and "ring ch k = Some X"
  then have "X \<in> dom (workers ch) \<and> k \<in> set (vnodeHashes (replicas ch) X)"
    by (rule reachable_owner)
  then show "X \<in> dom (workers ch)" ..
next
  fix h assume cf: "collisionFree ch" and h: "h \<in> set (sortedKeys ch)"
  from collisionFree_keys_ring [OF cf h] obtain X where X: "ring ch h = Some X" ..
  from reachable_owner [OF collisionFree_reachable [OF cf] X] X
  show "\<exists>X. ring ch h = Some X \<and> X \<in> dom (workers ch)"
    by blast
qed

theorem ring_invariant_amended_witness:
  "reachable ringAB \<and> collisionFree ringAB \<and> sorted (sortedKeys ringAB) \<and>
   ring ringAB 744653201 = Some ''b'' \<and>
   744653201 \<in> set (sortedKeys ringAB) \<and> ''b'' \<in> dom (workers ringAB)"
proof -
  have entry: "ring ringAB 744653201 = Some ''b''"
    by (simp add: ringAB_ring)
  from ring_invariant_amended [of ringAB] ringAB_reachable ringAB_collisionFree entry
  show ?thesis
    by blast
qed

text \<open>
  The claim as stated fails: after \<^verbatim>\<open>AddWorker\<close> twice and \<^verbatim>\<open>RemoveWorker\<close> once of the
  same worker, its hash is still in the sorted key list and has no map entry.
\<close>

theorem ring_invariant_counterexample:
  "reachable staleRing \<and> 774127560 \<in> set (sortedKeys staleRing) \<and>
   ring staleRing 774127560 = None"
  using staleRing_reachable by (simp add: staleRing_keys staleRing_ring)

text \<open>
  Claim C6 (empty ring), as amended.  \<^verbatim>\<open>GetWorker\<close> on a new ring, and on any
  reachable ring with no registered worker, returns the no-workers-available error;
  when the replica count is at least 1, after \<^verbatim>\<open>AddWorker\<close> of one worker on the new
  ring every \<^verbatim>\<open>GetWorker\<close> call succeeds and returns that worker.  (With a replica
  count of 0 or below \<^verbatim>\<open>AddWorker\<close> creates no virtual node and the lookup still
  fails.)
\<close>

theorem empty_ring_amended:
  "GetWorker (NewConsistentHash r) t = Inl NoWorkersAvailable \<and>
   (reachable ch \<and> workers ch = Map.empty \<longrightarrow> GetWorker ch t = Inl NoWorkersAvailable) \<and>
   (0 < r \<longrightarrow> GetWorker (AddWorker (NewConsistentHash r) w) t = Inr (Some w))"
proof (intro conjI impI)
  show "GetWorker (NewConsistentHash r) t = Inl NoWorkersAvailable"
    by (simp add: GetWorker_def NewConsistentHash_def)
next
  assume a: "reachable ch \<and> workers ch = Map.empty"
  have "ring ch k = None" for k
  proof (cases "ring ch k")
    case None
    then show ?thesis .
  next
    case (Some X)
    from reachable_owner [OF conjunct1 [OF a] Some] a show ?thesis
      by simp
  qed
  then have "ring ch = Map.empty"
    by (rule ext)
  then show "GetWorker ch t = Inl NoWorkersAvailable"
    by (simp add: GetWorker_def)
next
  assume r: "0 < r"
  let ?s = "AddWorker (NewConsistentHash r) w"
  let ?vh = "vnodeHashes r (wid w)"
  have rs: "reachable ?s"
    by (intro reachable.intros)
  have keys: "sortedKeys ?s = sort ?vh"
    by (simp add: AddWorker_keys NewConsistentHash_def)
  from r have vh: "?vh \<noteq> []"
    by (simp add: vnodeHashes_def)
  then obtain k0 where "k0 \<in> set ?vh"
    by (cases ?vh) auto
  then have "ring ?s k0 = Some (wid w)"
    by (simp add: AddWorker_ring NewConsistentHash_def)
  then have ne: "ring ?s \<noteq> Map.empty"
    by (metis option.distinct(1))
  let ?k = "successor (sortedKeys ?s) (hashFunction t)"
  have "length (sortedKeys ?s) = length ?vh"
    by (simp add: keys)
  with vh have "sortedKeys ?s \<noteq> []"
    by auto
  then have "?k \<in> set (sortedKeys ?s)"
    by (rule successor_mem)
  with keys have "?k \<in> set ?vh"
    by simp
  then have "ring ?s ?k = Some (wid w)"
    by (simp add: AddWorker_ring NewConsistentHash_def)
  then have "ringAt ?s ?k = wid w"
    by (simp add: ringAt_def)
  moreover have "workers ?s (wid w) = Some w"
    by (simp add: AddWorker_workers)
  ultimately show "GetWorker ?s t = Inr (Some w)"
    using reachable_lookup [OF rs ne, of t] by simp
qed

theorem empty_ring_amended_witness:
  "reachable (NewConsistentHash 1) \<and> workers (NewConsistentHash 1) = Map.empty \<and>
   (0::int) < 1 \<and>
   GetWorker (NewConsistentHash 1) ''x'' = Inl NoWorkersAvailable \<and>
   GetWorker (AddWorker (NewConsistentHash 1) workerA) ''x'' = Inr (Some workerA)"
proof -
  have a: "reachable (NewConsistentHash 1)"
    by (rule reachable.new)
  have b: "workers (NewConsistentHash 1) = Map.empty"
    by (simp add: NewConsistentHash_def)
  have c: "(0::int) < 1"
    by simp
  from empty_ring_amended [of 1 "''x''" "NewConsistentHash 1" workerA] a b c show ?thesis
    by blast
qed

text \<open>
  The claim as stated fails for a replica count of 0: the lookup after
  \<^verbatim>\<open>AddWorker\<close> still returns the error.
\<close>

theorem empty_ring_counterexample:
  "GetWorker (AddWorker (NewConsistentHash 0) workerA) ''x'' = Inl NoWorkersAvailable"
  by (simp add: GetWorker_def zeroReplicas_ring)

text \<open>
  Claim C9 (error condition and nil worker).  In a reachable ring state
  \<^verbatim>\<open>GetWorker\<close> returns an error exactly when the hash-to-WorkerID map is empty, and
  the error is the no-workers-available one; when the map has an entry the call
  returns no error and the handle the workers map holds for the owner of the
  selected key, so where that owner is absent from the workers map (a key left
  behind by a repeated \<^verbatim>\<open>AddWorker\<close> and one \<^verbatim>\<open>RemoveWorker\<close>) the caller receives
  a nil worker with a nil error.
\<close>

theorem GetWorker_error_iff:
  assumes "reachable ch"
  shows "((\<exists>e. GetWorker ch t = Inl e) \<longleftrightarrow> ring ch = Map.empty) \<and>
    (ring ch = Map.empty \<longrightarrow> GetWorker ch t = Inl NoWorkersAvailable) \<and>
    (ring ch \<noteq> Map.empty \<longrightarrow>
       GetWorker ch t =
         Inr (workers ch (ringAt ch (successor (sortedKeys ch) (hashFunction t))))) \<and>
    (ring ch \<noteq> Map.empty \<and>
     workers ch (ringAt ch (successor (sortedKeys ch) (hashFunction t))) = None \<longrightarrow>
       GetWorker ch t = Inr None)"
proof -
  have e: "ring ch = Map.empty \<Longrightarrow> GetWorker ch t = Inl NoWorkersAvailable"
    by (simp add: GetWorker_def)
  have n: "ring ch \<noteq> Map.empty \<Longrightarrow> GetWorker ch t =
      Inr (workers ch (ringAt ch (successor (sortedKeys ch) (hashFunction t))))"
    using assms by (rule reachable_lookup)
  show ?thesis
  proof (cases "ring ch = Map.empty")
    case True
    with e show ?thesis by simp
  next
    case False
    with n show ?thesis by simp
  qed
qed

theorem GetWorker_error_iff_witness:
  "reachable staleRingB \<and> ring staleRingB \<noteq> Map.empty \<and>
   workers staleRingB
     (ringAt staleRingB (successor (sortedKeys staleRingB) (hashFunction ''a#0''))) = None \<and>
   GetWorker staleRingB ''a#0'' = Inr None"
proof -
  have ne: "ring staleRingB \<noteq> Map.empty"
    by (simp add: staleRingB_ring)
  have nil: "workers staleRingB
      (ringAt staleRingB (successor (sortedKeys staleRingB) (hashFunction ''a#0''))) = None"
    by (simp add: staleRingB_keys staleRingB_ring staleRingB_workers hash_a0 successor_def
        ringAt_def)
  from GetWorker_error_iff [OF staleRingB_reachable, of "''a#0''"] ne nil
  have "GetWorker staleRingB ''a#0'' = Inr None"
    by blast
  with staleRingB_reachable ne nil show ?thesis
    by blast
qed

end
